theory Spec2Isabelle
  imports Main "HOL-Library.Word"
begin

unbundle bit_operations_syntax

section \<open>Registrar: the offset state and its events\<close>

text \<open>
  The registrar keeps \<open>state map[*ProspectorInfo]*FileState\<close>. A \<open>*ProspectorInfo\<close> is a
  pointer that is only compared and used as a key, so it is a handle (a natural number).
  Every \<open>*FileState\<close> stored in the map is allocated by the assignment that stores it
  (\<open>NewFileEvent.Process\<close>) or by the JSON decoder (\<open>LoadPrevious\<close>), so no two keys
  share one: the map holds the values. \<open>Offset\<close> is an \<open>int64\<close> that is copied and never
  computed with.
\<close>

type_synonym ProspectorInfo = nat

type_synonym FileIdentity = "nat \<times> nat"

text \<open>
  Modelled from the spec: the declaration of \<open>FileState\<close> is not among the source files.
  The spec lists its fields: the source path, the byte offset and the identity of the
  file (device and inode), which \<open>PopulateFileIds\<close> fills from the file information.
\<close>

record FileState =
  Source :: string
  Offset :: int
  FileIds :: FileIdentity

datatype FileEvent = FileEvent (ev_ProspectorInfo: ProspectorInfo) (ev_Offset: int)

datatype RegistrarEvent =
    NewFileEvent ProspectorInfo string int FileIdentity
  | DeletedEvent ProspectorInfo
  | RenamedEvent ProspectorInfo string
  | EventsEvent "FileEvent list"

type_synonym RegistrarState = "ProspectorInfo \<rightharpoonup> FileState"

text \<open>The body of the loop of \<open>EventsEvent.Process\<close>: an unknown key is skipped.\<close>

definition set_offset :: "FileEvent \<Rightarrow> RegistrarState \<Rightarrow> RegistrarState" where
  "set_offset event st =
     (case st (ev_ProspectorInfo event) of
        None \<Rightarrow> st
      | Some fs \<Rightarrow> st(ev_ProspectorInfo event \<mapsto> fs\<lparr>Offset := ev_Offset event\<rparr>))"

fun Process :: "RegistrarEvent \<Rightarrow> RegistrarState \<Rightarrow> RegistrarState" where
  "Process (NewFileEvent p src off ids) st =
     st(p \<mapsto> \<lparr>Source = src, Offset = off, FileIds = ids\<rparr>)"
| "Process (DeletedEvent p) st = st(p := None)"
| "Process (RenamedEvent p src) st =
     (case st p of None \<Rightarrow> st | Some fs \<Rightarrow> st(p \<mapsto> fs\<lparr>Source := src\<rparr>))"
| "Process (EventsEvent es) st = fold set_offset es st"

text \<open>One batch read from \<open>registrar_chan\<close>: \<open>for _, event := range events\<close>.\<close>

definition process_batch :: "RegistrarEvent list \<Rightarrow> RegistrarState \<Rightarrow> RegistrarState" where
  "process_batch events st = fold Process events st"

text \<open>
  The document handed to \<open>WriteRegistry\<close>: \<open>state_json[*value.Source] = value\<close> for every
  value of the state. Go leaves the order of a \<open>range\<close> over a map open, so the order is
  a parameter: \<open>ks\<close> lists the keys in the order the loop visits them.
\<close>

definition state_json :: "RegistrarState \<Rightarrow> ProspectorInfo list \<Rightarrow> (string \<rightharpoonup> FileState)" where
  "state_json st ks =
     fold (\<lambda>k doc. case st k of None \<Rightarrow> doc | Some v \<Rightarrow> doc(Source v \<mapsto> v)) ks Map.empty"

text \<open>
  \<open>Register\<close>: every batch is processed and the document is written after it. The result
  is the final state and the documents written, oldest first; \<open>order\<close> gives the order
  in which the \<open>range\<close> over the state visits its keys.
\<close>

fun Register ::
  "(RegistrarState \<Rightarrow> ProspectorInfo list) \<Rightarrow> RegistrarEvent list list \<Rightarrow> RegistrarState
     \<Rightarrow> RegistrarState \<times> (string \<rightharpoonup> FileState) list" where
  "Register order [] st = (st, [])"
| "Register order (events # rest) st =
     (let st' = process_batch events st;
          (final, docs) = Register order rest st'
      in (final, state_json st' (order st') # docs))"

text \<open>What an event sequence carries as offsets for the handle \<open>p\<close>, in order.\<close>

fun carried :: "ProspectorInfo \<Rightarrow> RegistrarEvent \<Rightarrow> int list" where
  "carried p (NewFileEvent q src off ids) = (if q = p then [off] else [])"
| "carried p (EventsEvent es) = map ev_Offset (filter (\<lambda>e. ev_ProspectorInfo e = p) es)"
| "carried p _ = []"

text \<open>The offset stored for \<open>p\<close>, if any.\<close>

definition stored :: "RegistrarState \<Rightarrow> ProspectorInfo \<Rightarrow> int list" where
  "stored st p = (case st p of None \<Rightarrow> [] | Some fs \<Rightarrow> [Offset fs])"

text \<open>
  The offsets stored for \<open>p\<close> after each event of a sequence (no entry in the list where
  the state has none for \<open>p\<close>).
\<close>

fun offset_history :: "ProspectorInfo \<Rightarrow> RegistrarEvent list \<Rightarrow> RegistrarState \<Rightarrow> int list" where
  "offset_history p [] st = []"
| "offset_history p (e # es) st =
     stored (Process e st) p @ offset_history p es (Process e st)"

text \<open>The states in which \<open>Register\<close> writes the document: the one after each batch.\<close>

fun batch_states :: "RegistrarEvent list list \<Rightarrow> RegistrarState \<Rightarrow> RegistrarState list" where
  "batch_states [] st = []"
| "batch_states (events # rest) st =
     process_batch events st # batch_states rest (process_batch events st)"

text \<open>
  The offset the document written from \<open>st\<close> holds for \<open>p\<close>: the one of the entry under
  the path that \<open>p\<close> has at that time.
\<close>

definition persisted :: "RegistrarState \<Rightarrow> ProspectorInfo list \<Rightarrow> ProspectorInfo \<Rightarrow> int list" where
  "persisted st ks p =
     (case st p of
        None \<Rightarrow> []
      | Some fs \<Rightarrow> (case state_json st ks (Source fs) of None \<Rightarrow> [] | Some v \<Rightarrow> [Offset v]))"

text \<open>No other tracked file among \<open>ks\<close> has the path of \<open>p\<close>.\<close>

definition sole_path :: "RegistrarState \<Rightarrow> ProspectorInfo list \<Rightarrow> ProspectorInfo \<Rightarrow> bool" where
  "sole_path st ks p \<longleftrightarrow>
     (\<forall>q\<in>set ks. q \<noteq> p \<longrightarrow> map_option Source (st q) \<noteq> map_option Source (st p))"

subsection \<open>Loading the previous state\<close>

text \<open>
  \<open>os.Open\<close> is a lookup in the file system: \<open>None\<close> is any failure to open. The JSON
  decoder is a parameter: \<open>decode c\<close> lists the entries that \<open>decoder.Decode\<close> leaves in
  \<open>data\<close> for the contents \<open>c\<close> (its error is dropped by the source), in the order in which
  the \<open>range\<close> over \<open>data\<close> visits them.
\<close>

type_synonym filesystem = "string \<rightharpoonup> string"

record Registrar =
  persistdir :: string
  statefile :: string
  state :: RegistrarState

definition PathSeparator :: string where
  "PathSeparator = ''/''"

text \<open>
  Modelled from the spec: \<open>NewProspectorInfoFromFileState\<close> is not among the source
  files. It creates the ProspectorInfo of a file resumed from persisted state; here that
  is the next unused handle \<open>n\<close>.
\<close>

fun load_entries ::
  "(string \<times> FileState) list \<Rightarrow> (string \<rightharpoonup> ProspectorInfo) \<Rightarrow> RegistrarState \<Rightarrow> nat
     \<Rightarrow> (string \<rightharpoonup> ProspectorInfo) \<times> RegistrarState \<times> nat" where
  "load_entries [] resume st n = (resume, st, n)"
| "load_entries ((file, fs) # rest) resume st n =
     load_entries rest (resume(file \<mapsto> n)) (st(n \<mapsto> fs)) (Suc n)"

record LoadResult =
  resume_map :: "(string \<rightharpoonup> ProspectorInfo) option"
  registrar :: Registrar
  next_handle :: nat
  opened :: "string list"

definition LoadPrevious ::
  "filesystem \<Rightarrow> (string \<Rightarrow> (string \<times> FileState) list) \<Rightarrow> Registrar \<Rightarrow> nat \<Rightarrow> LoadResult" where
  "LoadPrevious files decode r n =
     (let filename = persistdir r @ PathSeparator @ ''.log-courier'';
          (f, tried) =
            (case files filename of
               Some c \<Rightarrow> (Some c, [filename])
             | None \<Rightarrow>
                 (let filename' = persistdir r @ PathSeparator @ ''.log-courier.new''
                  in (files filename', [filename, filename'])))
      in case f of
           None \<Rightarrow> \<lparr>resume_map = None, registrar = r, next_handle = n, opened = tried\<rparr>
         | Some c \<Rightarrow>
             (let (resume, st, n') = load_entries (decode c) Map.empty Map.empty n
              in \<lparr>resume_map = Some resume, registrar = r\<lparr>state := st\<rparr>,
                   next_handle = n', opened = tried\<rparr>))"

section \<open>The agent: configuration, start-up and the signal loop\<close>

text \<open>
  The declaration of \<open>config.Config\<close> is not among the source files: the record holds
  the fields the source reads. \<open>lc.config\<close> is a pointer, and the claims ask which
  object it points to, so the agent carries the address in \<open>config\<close> and the contents of
  every configuration object in \<open>configs\<close>. Address 0 is \<open>nil\<close>; every read of
  \<open>lc.config\<close> in the source follows a \<open>loadConfig\<close>, which stores a new address.
\<close>

record Config =
  LogLevel :: nat
  LogFile :: string
  LogStdout :: bool
  ListenAddress :: string
  TelemetryPath :: string
  AdminEnabled :: bool

type_synonym ConfigRef = nat

text \<open>
  What the source calls and does not define. \<open>NewConfig\<close> is the contents of a new
  configuration; \<open>Load path c\<close> is the error of \<open>c.Load(path, true)\<close> and the contents it
  leaves behind; the other fields are the errors of the calls named.
  \<open>Register_publisher\<close> and \<open>Register_prospector\<close> are the errors with which the
  metrics registry refuses the two collectors: \<open>prometheus.MustRegister\<close> panics with
  them. \<open>GoRelease\<close> is the release of Go the agent is built with: the \<open>flag\<close> package
  ends the process with status 2 on \<open>-help\<close> before Go 1.15 and with status 0 since.
\<close>

datatype go_release = Before_1_15 | Since_1_15

record Env =
  NewConfig :: Config
  Load :: "string \<Rightarrow> Config \<Rightarrow> string option \<times> Config"
  NewDefaultLogBackend :: "string option"
  configureLoggingPlatform :: "string option"
  os_Create :: "string option"
  ServerShutdown :: "string option"
  admin_NewServer :: "string option"
  NewProspector :: "string option"
  Register_publisher :: "string option"
  Register_prospector :: "string option"
  GoRelease :: go_release


record logCourier =
  config :: ConfigRef
  configs :: "ConfigRef \<Rightarrow> Config"
  next_config :: ConfigRef
  configFile :: string
  stdin :: bool
  fromBeginning :: bool
  logFile :: bool
  reopened :: nat
  metricsServer :: "string option"
  log_level :: nat
  sent_config :: "ConfigRef list"
  profiling :: bool

text \<open>
  \<open>loadConfig\<close>: the new configuration is stored in \<open>lc.config\<close> before it is loaded.
  The warning about an empty list of files only logs.
\<close>

definition loadConfig :: "Env \<Rightarrow> logCourier \<Rightarrow> string option \<times> logCourier" where
  "loadConfig env lc =
     (let a = next_config lc;
          lc1 = lc\<lparr>config := a, configs := (configs lc)(a := NewConfig env), next_config := Suc a\<rparr>;
          (err, c) = Load env (configFile lc1) (configs lc1 a)
      in (err, lc1\<lparr>configs := (configs lc1)(a := c)\<rparr>))"

text \<open>
  \<open>startListener\<close>. The server itself runs in a goroutine; its failure is the event
  \<open>ListenerFailed\<close> below. The new mux is taken to accept the two handlers.
\<close>

definition startListener :: "Env \<Rightarrow> logCourier \<Rightarrow> string option \<times> logCourier" where
  "startListener env lc =
     (if metricsServer lc \<noteq> None \<and> ServerShutdown env \<noteq> None then (ServerShutdown env, lc)
      else if ListenAddress (configs lc (config lc)) = [] then (None, lc)
      else (None, lc\<lparr>metricsServer := Some (ListenAddress (configs lc (config lc)))\<rparr>))"

definition reloadConfig :: "Env \<Rightarrow> logCourier \<Rightarrow> string option \<times> logCourier" where
  "reloadConfig env lc =
     (case loadConfig env lc of
        (Some err, lc1) \<Rightarrow> (Some err, lc1)
      | (None, lc1) \<Rightarrow>
          (let lc2 = lc1\<lparr>log_level := LogLevel (configs lc1 (config lc1))\<rparr>;
               lc3 = (if logFile lc2 then lc2\<lparr>reopened := Suc (reopened lc2)\<rparr> else lc2);
               lc4 = snd (startListener env lc3)
           in (None, lc4\<lparr>sent_config := sent_config lc4 @ [config lc4]\<rparr>)))"













section \<open>Transport\<close>

type_synonym byte = "8 word"

definition socket_interval_seconds :: nat where
  "socket_interval_seconds = 5"

text \<open>An error of the socket: \<open>Timeout\<close> is a \<open>net.Error\<close> whose \<open>Timeout()\<close> holds.\<close>

datatype net_error = Timeout | OtherError string

datatype transport_error = SocketError string | MessageTooLarge "32 word"

datatype recv_item = Message "byte list" | Error transport_error

text \<open>
  The sender and the receiver are goroutines. Each is modelled by what it does to the
  rest of the program, in order: a value sent on \<open>recv_chan\<close>, a \<open>setChan\<close> on one of the
  two signal channels, and the final \<open>wait.Done\<close>; and by how it ends within the events
  given.
\<close>

datatype action = Deliver recv_item | SignalCanRecv | SignalCanSend | WaitDone

datatype task_status = Exited | Running | Panicked

subsection \<open>The receiver\<close>

text \<open>
  What the receiver meets at the socket, in order: \<open>ShutdownClosed\<close> is the shutdown
  channel found closed by the \<open>select\<close>; \<open>Chunk bs e\<close> is bytes that arrive together with
  the error the \<open>Read\<close> that takes the last of them returns. A \<open>Read\<close> takes no more
  than its buffer holds and leaves the rest for the next one; a \<open>Read\<close> into an empty
  buffer returns \<open>(0, nil)\<close> at once. An empty list is a socket on which nothing has
  arrived yet.
\<close>

datatype sock_event = ShutdownClosed | Chunk "byte list" "net_error option"

datatype read_result = Success | Failure string | Shutdown | Pending

fun receiverRead ::
  "sock_event list \<Rightarrow> byte list \<Rightarrow> nat \<Rightarrow> read_result \<times> byte list \<times> sock_event list" where
  "receiverRead (ShutdownClosed # s) data received = (Shutdown, data, ShutdownClosed # s)"
| "receiverRead [] data received =
     (if length data \<le> received then (Success, data, []) else (Pending, data, []))"
| "receiverRead (Chunk bs e # s) data received =
     (let room = length data - received
      in if room = 0 then (Success, data, Chunk bs e # s)
         else if room < length bs
         then (Success, take received data @ take room bs, Chunk (drop room bs) e # s)
         else
           (let data' = take received data @ bs @ drop (received + length bs) data;
                received' = received + length bs
            in if e = None \<or> length data \<le> received' then (Success, data', s)
               else (case e of
                       Some (OtherError m) \<Rightarrow> (Failure m, data', s)
                     | _ \<Rightarrow> receiverRead s data' received')))"

text \<open>\<open>binary.BigEndian.Uint32\<close> of a slice of four bytes.\<close>

definition BigEndian_Uint32 :: "byte list \<Rightarrow> 32 word" where
  "BigEndian_Uint32 b =
     ucast (b ! 3) OR push_bit 8 (ucast (b ! 2)) OR push_bit 16 (ucast (b ! 1))
       OR push_bit 24 (ucast (b ! 0))"

fun script_size :: "sock_event list \<Rightarrow> nat" where
  "script_size [] = 0"
| "script_size (ShutdownClosed # s) = Suc (script_size s)"
| "script_size (Chunk bs e # s) = Suc (length bs + script_size s)"

lemma receiverRead_size:
  "receiverRead s data received = (res, d, s') \<Longrightarrow> script_size s' \<le> script_size s"
proof (induction s arbitrary: data received res d s')
  case Nil
  then show ?case by (simp split: if_splits)
next
  case (Cons ev s)
  show ?case
  proof (cases ev)
    case ShutdownClosed
    with Cons.prems show ?thesis by simp
  next
    case (Chunk bs e)
    with Cons.prems show ?thesis
      by (auto simp: Let_def split: if_splits option.splits net_error.splits dest: Cons.IH)
  qed
qed

lemma receiverRead_Success_size:
  "receiverRead s data received = (Success, d, s') \<Longrightarrow> received < length data \<Longrightarrow>
   script_size s' < script_size s"
proof (induction s arbitrary: data received d s')
  case Nil
  then show ?case by (simp split: if_splits)
next
  case (Cons ev s)
  show ?case
  proof (cases ev)
    case ShutdownClosed
    with Cons.prems show ?thesis by simp
  next
    case (Chunk bs e)
    with Cons.prems show ?thesis
      by (auto simp: Let_def split: if_splits option.splits net_error.splits dest: Cons.IH)
  qed
qed

text \<open>
  \<open>receiver\<close>, from the header buffer \<open>header\<close> on. The buffer is \<open>make([]byte, 8)\<close>, used
  again for every frame; a buffer of another length is no state of the program. The
  message is \<open>make([]byte, 8 + length)\<close> with the sum taken in \<open>uint32\<close>, so it wraps, and
  \<open>message[8:]\<close> panics when fewer than 8 bytes were made.
\<close>

function receiver :: "sock_event list \<Rightarrow> byte list \<Rightarrow> action list \<times> task_status" where
  "receiver s header =
     (if length header \<noteq> 8 then ([], Panicked)
      else
        (case receiverRead s header 0 of
           (Shutdown, h, s') \<Rightarrow> ([WaitDone], Exited)
         | (Pending, h, s') \<Rightarrow> ([], Running)
         | (Failure m, h, s') \<Rightarrow> ([Deliver (Error (SocketError m)), SignalCanRecv, WaitDone], Exited)
         | (Success, h, s') \<Rightarrow>
             (let len = BigEndian_Uint32 (drop 4 h);
                  sanity = (if 1048576 < len then [Deliver (Error (MessageTooLarge len))] else []);
                  total = 8 + len
              in if unat total < 8 then (sanity, Panicked)
                 else
                   (case receiverRead s' (replicate (unat total - 8) 0) 0 of
                      (Shutdown, p, s'') \<Rightarrow> (sanity @ [WaitDone], Exited)
                    | (Pending, p, s'') \<Rightarrow> (sanity, Running)
                    | (Failure m, p, s'') \<Rightarrow>
                        (sanity @ [Deliver (Error (SocketError m)), SignalCanRecv, WaitDone], Exited)
                    | (Success, p, s'') \<Rightarrow>
                        (let (acts, st) = receiver s'' h
                         in (sanity @ [Deliver (Message (h @ p)), SignalCanRecv] @ acts, st))))))"
  by pat_completeness auto
termination
proof (relation "measure (\<lambda>(s, header). script_size s)")
  show "wf (measure (\<lambda>(s, header). script_size s))" by simp
next
  fix s :: "sock_event list" and header h p :: "byte list" and s' s'' x y yb xe
    and total :: "32 word"
  assume hdr: "\<not> length header \<noteq> 8"
    and r1: "(x, y) = receiverRead s header 0" "x = Success" "(h, s') = y"
    and r2: "(xe, yb) = receiverRead s' (replicate (unat total - 8) 0) 0" "xe = Success"
      "(p, s'') = yb"
  from r1 have "receiverRead s header 0 = (Success, h, s')" by metis
  with hdr have "script_size s' < script_size s"
    by (intro receiverRead_Success_size [of s header 0 h s']) auto
  moreover from r2 have "receiverRead s' (replicate (unat total - 8) 0) 0 = (Success, p, s'')"
    by metis
  then have "script_size s'' \<le> script_size s'" by (rule receiverRead_size)
  ultimately show "((s'', h), s, header) \<in> measure (\<lambda>(s, header). script_size s)" by simp
qed

declare receiver.simps [simp del]

subsection \<open>The sender and the write wrapper\<close>

text \<open>
  What one \<open>tcpsocket.Write\<close> of the wrapper returns: the bytes written, and no error,
  a timeout or another error. After a timeout the wrapper polls the shutdown channel:
  the flag of \<open>TimedOut\<close> says whether it finds it closed.
\<close>

datatype tcp_write = Wrote nat | TimedOut nat bool | Failed nat string

text \<open>
  \<open>TransportTlsWrap.Write\<close> from \<open>length\<close> bytes on. The first component lists, for
  every pass of the loop, the write deadline it arms (seconds from now) and the slice
  it hands to the socket; the second is \<open>(length, err)\<close> as returned, or \<open>None\<close> when
  the loop is still retrying at the end of the writes given.
\<close>

fun wrap_Write ::
  "tcp_write list \<Rightarrow> byte list \<Rightarrow> nat
     \<Rightarrow> (nat \<times> byte list) list \<times> (nat \<times> net_error option) option" where
  "wrap_Write [] b len = ([], None)"
| "wrap_Write (Wrote n # ws) b len =
     ([(socket_interval_seconds, drop len b)], Some (len + n, None))"
| "wrap_Write (Failed n m # ws) b len =
     ([(socket_interval_seconds, drop len b)], Some (len + n, Some (OtherError m)))"
| "wrap_Write (TimedOut n closed # ws) b len =
     (if closed then ([(socket_interval_seconds, drop len b)], Some (len + n, Some Timeout))
      else (let (armed, r) = wrap_Write ws b (len + n)
            in ((socket_interval_seconds, drop len b) # armed, r)))"

text \<open>
  What each \<open>select\<close> of the sender receives: the shutdown signal, or a message from
  \<open>send_chan\<close> together with what the socket does while it is written. \<open>tls.Conn.Write\<close>
  is the library's: it hands the record to the wrapper and returns the wrapper's error.
\<close>

datatype sender_event = SendShutdown | SendMsg "byte list" "tcp_write list"

fun sender :: "sender_event list \<Rightarrow> action list \<times> task_status" where
  "sender [] = ([], Running)"
| "sender (SendShutdown # evs) = ([WaitDone], Exited)"
| "sender (SendMsg msg ws # evs) =
     (case snd (wrap_Write ws msg 0) of
        None \<Rightarrow> ([], Running)
      | Some (n, None) \<Rightarrow> (let (acts, st) = sender evs in (SignalCanSend # acts, st))
      | Some (n, Some Timeout) \<Rightarrow> ([WaitDone], Exited)
      | Some (n, Some (OtherError m)) \<Rightarrow>
          (let (acts, st) = sender evs
           in (Deliver (Error (SocketError m)) # SignalCanRecv # acts, st)))"

subsection \<open>Connect, Flush and Disconnect\<close>

text \<open>
  A channel is \<open>nil\<close>, or its buffer and whether it is closed. Every channel of the
  transport is made with capacity 1.
\<close>

datatype 'a chan = NilChan | Chan "'a list" bool

datatype socket_state = NoSocket | SocketOpen | SocketClosed

record TransportTls =
  Servers :: "string list"
  socket :: socket_state
  write_buffer :: "byte list"
  wait :: nat
  shutdown :: "nat chan"
  send_chan :: "byte list chan"
  recv_chan :: "recv_item chan"
  can_send :: "nat chan"
  can_recv :: "nat chan"

datatype 'a call = Returns 'a | Panic string | Blocks

text \<open>
  One pass of the inner loop of \<open>Connect\<close>, by how it ends; the random choices and the
  sleep between two passes leave no trace in the transport.
\<close>

datatype attempt = InvalidHostPort | DnsFailure | DialFailure | HandshakeFailure | Connected

fun connect_loop :: "attempt list \<Rightarrow> bool" where
  "connect_loop [] = False"
| "connect_loop (Connected # as) = True"
| "connect_loop (a # as) = connect_loop as"

text \<open>
  \<open>Connect\<close>: \<open>rand.Int() % len(Servers)\<close> panics on an empty list; a loop that never
  connects within the attempts given has not returned.
\<close>

definition Connect :: "attempt list \<Rightarrow> TransportTls \<Rightarrow> TransportTls call" where
  "Connect attempts t =
     (if Servers t = [] then Panic ''integer divide by zero''
      else if \<not> connect_loop attempts then Blocks
      else Returns (t\<lparr>write_buffer := [], socket := SocketOpen,
                      shutdown := Chan [] False, send_chan := Chan [] False,
                      recv_chan := Chan [] False, can_send := Chan [1] False,
                      can_recv := Chan [] False, wait := wait t + 2\<rparr>))"

definition Write :: "byte list \<Rightarrow> TransportTls \<Rightarrow> TransportTls" where
  "Write p t = t\<lparr>write_buffer := write_buffer t @ p\<rparr>"

text \<open>\<open>Flush\<close>: the send blocks on a \<open>nil\<close> channel and on a full buffer.\<close>

definition Flush :: "TransportTls \<Rightarrow> TransportTls call" where
  "Flush t =
     (case send_chan t of
        NilChan \<Rightarrow> Blocks
      | Chan buf closed \<Rightarrow>
          if closed then Panic ''send on closed channel''
          else if 1 \<le> length buf then Blocks
          else Returns (t\<lparr>send_chan := Chan (buf @ [write_buffer t]) closed, write_buffer := []\<rparr>))"

text \<open>
  \<open>Disconnect\<close>. \<open>close\<close> panics on a \<open>nil\<close> and on a closed channel. \<open>wait.Wait()\<close>
  returns once both goroutines have seen the closed channel: \<open>joined\<close> says whether
  they do (a goroutine that is sending on a full \<open>recv_chan\<close> does not).
\<close>

definition Disconnect :: "bool \<Rightarrow> TransportTls \<Rightarrow> TransportTls call" where
  "Disconnect joined t =
     (case shutdown t of
        NilChan \<Rightarrow> Panic ''close of nil channel''
      | Chan buf closed \<Rightarrow>
          if closed then Panic ''close of closed channel''
          else if \<not> joined then Blocks
          else Returns (t\<lparr>shutdown := Chan buf True, wait := 0, socket := SocketClosed,
                          write_buffer := []\<rparr>))"

section \<open>Inputs for the examples\<close>

definition fs_a :: FileState where
  "fs_a = \<lparr>Source = ''/var/log/a.log'', Offset = 10, FileIds = (1, 7)\<rparr>"

definition fs_b :: FileState where
  "fs_b = \<lparr>Source = ''/var/log/a.log'', Offset = 25, FileIds = (1, 9)\<rparr>"

definition st0 :: RegistrarState where
  "st0 = [1 \<mapsto> fs_a]"

definition st_shared :: RegistrarState where
  "st_shared = [1 \<mapsto> fs_a, 2 \<mapsto> fs_b]"

definition files_new_only :: filesystem where
  "files_new_only = [''/var/lib/lc/.log-courier.new'' \<mapsto> ''saved'']"

definition decode0 :: "string \<Rightarrow> (string \<times> FileState) list" where
  "decode0 c = (if c = ''saved'' then [(''/var/log/a.log'', fs_a), (''/var/log/b.log'', fs_b)] else [])"

definition registrar0 :: Registrar where
  "registrar0 = \<lparr>persistdir = ''/var/lib/lc'', statefile = ''.log-courier'', state = Map.empty\<rparr>"

definition cfg_old :: Config where
  "cfg_old = \<lparr>LogLevel = 3, LogFile = ''/var/log/lc.log'', LogStdout = False,
     ListenAddress = [], TelemetryPath = ''/metrics'', AdminEnabled = False\<rparr>"

definition cfg_new :: Config where
  "cfg_new = \<lparr>LogLevel = 0, LogFile = [], LogStdout = True,
     ListenAddress = [], TelemetryPath = [], AdminEnabled = False\<rparr>"

definition env_ok :: Env where
  "env_ok = \<lparr>NewConfig = cfg_new, Load = (\<lambda>path c. (None, cfg_old)),
     NewDefaultLogBackend = None, configureLoggingPlatform = None, os_Create = None,
     ServerShutdown = None, admin_NewServer = None, NewProspector = None,
     Register_publisher = None, Register_prospector = None, GoRelease = Since_1_15\<rparr>"

definition env_load_fails :: Env where
  "env_load_fails = env_ok\<lparr>Load := (\<lambda>path c. (Some ''syntax error'', c))\<rparr>"


definition lc_new :: logCourier where
  "lc_new = \<lparr>config = 0, configs = (\<lambda>a. cfg_new), next_config = 1, configFile = [],
     stdin = False, fromBeginning = False, logFile = False, reopened = 0,
     metricsServer = None, log_level = 0, sent_config = [], profiling = False\<rparr>"

definition lc_running :: logCourier where
  "lc_running = lc_new\<lparr>config := 1, configs := (\<lambda>a. cfg_new)(1 := cfg_old), next_config := 2,
     configFile := ''/etc/lc.conf'', logFile := True, log_level := 3\<rparr>"














definition batches0 :: "RegistrarEvent list list" where
  "batches0 = [[EventsEvent [FileEvent 1 12, FileEvent 2 3]],
               [RenamedEvent 1 ''/var/log/a.log.1'', EventsEvent [FileEvent 1 20]]]"

definition order_shared :: "RegistrarState \<Rightarrow> ProspectorInfo list" where
  "order_shared s = (if map_option Offset (s 1) = Some 10 then [1, 2] else [2, 1])"

definition transport0 :: TransportTls where
  "transport0 = \<lparr>Servers = [''logs.example.org:5043''], socket = NoSocket, write_buffer = [],
     wait = 0, shutdown = NilChan, send_chan = NilChan, recv_chan = NilChan,
     can_send = NilChan, can_recv = NilChan\<rparr>"

definition transport_connected :: TransportTls where
  "transport_connected = transport0\<lparr>socket := SocketOpen, wait := 2,
     shutdown := Chan [] False, send_chan := Chan [] False, recv_chan := Chan [] False,
     can_send := Chan [1] False, can_recv := Chan [] False\<rparr>"

definition transport_disconnected :: TransportTls where
  "transport_disconnected = transport_connected\<lparr>shutdown := Chan [] True, wait := 0,
     socket := SocketClosed\<rparr>"

definition retried :: "nat list \<Rightarrow> tcp_write list" where
  "retried ns = map (\<lambda>n. TimedOut n False) ns"

definition msg1 :: "byte list" where
  "msg1 = [74, 68, 65]"

definition hdr1 :: "byte list" where
  "hdr1 = [0x41, 0x43, 0x4B, 0x4E, 0, 0x10, 0, 1]"

definition oversized_rest :: "sock_event list" where
  "oversized_rest = [Chunk (replicate 1048577 1) None, ShutdownClosed]"

definition oversized_frame :: "sock_event list" where
  "oversized_frame = Chunk hdr1 None # oversized_rest"

section \<open>Registrar: theorems\<close>

subsection \<open>Events for an unknown key\<close>

lemma dom_set_offset: "dom (set_offset e st) = dom st"
  by (auto simp: set_offset_def split: option.splits)

lemma set_offset_unknown: "st (ev_ProspectorInfo e) = None \<Longrightarrow> set_offset e st = st"
  by (simp add: set_offset_def)

lemma fold_set_offset_unknown:
  "\<forall>e\<in>set es. st (ev_ProspectorInfo e) = None \<Longrightarrow> fold set_offset es st = st"
  by (induction es) (simp_all add: set_offset_unknown)

lemma dom_fold_set_offset: "dom (fold set_offset es st) = dom st"
  by (induction es arbitrary: st) (simp_all add: dom_set_offset)


text \<open>
  C8. A \<open>RenamedEvent\<close>, and an offset update of an \<open>EventsEvent\<close>, whose ProspectorInfo
  is not a key of the state leaves the state as it is: the entry is skipped and none is
  created. An \<open>EventsEvent\<close> all of whose entries are unknown changes nothing, and in any
  case neither event changes the set of keys.
\<close>

theorem unknown_key_is_skipped:
  "(st p = None \<longrightarrow> Process (RenamedEvent p src) st = st) \<and>
   (st (ev_ProspectorInfo e) = None \<longrightarrow> set_offset e st = st) \<and>
   ((\<forall>e\<in>set es. st (ev_ProspectorInfo e) = None) \<longrightarrow> Process (EventsEvent es) st = st) \<and>
   dom (Process (RenamedEvent p src) st) = dom st \<and>
   dom (Process (EventsEvent es) st) = dom st"
  by (auto simp: set_offset_unknown fold_set_offset_unknown dom_fold_set_offset
      split: option.splits)

theorem unknown_key_is_skipped_witness:
  "st0 2 = None \<and> Process (RenamedEvent 2 ''/var/log/c.log'') st0 = st0 \<and>
   set_offset (FileEvent 2 99) st0 = st0 \<and>
   Process (EventsEvent [FileEvent 2 99, FileEvent 3 5]) st0 = st0"
proof -
  have a: "st0 2 = None" by (simp add: st0_def)
  have b: "st0 (ev_ProspectorInfo (FileEvent 2 99)) = None" by (simp add: st0_def)
  have c: "\<forall>e\<in>set [FileEvent 2 99, FileEvent 3 5]. st0 (ev_ProspectorInfo e) = None"
    by (simp add: st0_def)
  from unknown_key_is_skipped [of st0 2 "''/var/log/c.log''" "FileEvent 2 99"
      "[FileEvent 2 99, FileEvent 3 5]"] a b c
  show ?thesis by blast
qed

subsection \<open>The stored offset follows the events\<close>

lemma stored_cases: "stored st p = [] \<or> (\<exists>x. stored st p = [x])"
  by (simp add: stored_def split: option.splits)

lemma stored_set_offset:
  "set (stored (set_offset e st) p) \<subseteq>
     set (stored st p) \<union> (if ev_ProspectorInfo e = p then {ev_Offset e} else {})"
  by (auto simp: stored_def set_offset_def split: option.splits if_splits)

lemma stored_fold_set_offset:
  "set (stored (fold set_offset es st) p) \<subseteq>
     set (stored st p) \<union> set (map ev_Offset (filter (\<lambda>e. ev_ProspectorInfo e = p) es))"
proof (induction es arbitrary: st)
  case Nil
  show ?case by simp
next
  case (Cons e es)
  have "set (stored (fold set_offset es (set_offset e st)) p) \<subseteq>
     set (stored (set_offset e st) p) \<union> set (map ev_Offset (filter (\<lambda>e. ev_ProspectorInfo e = p) es))"
    by (rule Cons.IH)
  with stored_set_offset [of e st p] show ?case
    by (auto split: if_splits)
qed

lemma stored_Process:
  "set (stored (Process e st) p) \<subseteq> set (stored st p) \<union> set (carried p e)"
proof (cases e)
  case (EventsEvent es)
  then show ?thesis using stored_fold_set_offset [of es st p] by simp
qed (auto simp: stored_def split: option.splits if_splits)

lemma offset_history_subset:
  "set (offset_history p evs st) \<subseteq> set (stored st p) \<union> set (concat (map (carried p) evs))"
proof (induction evs arbitrary: st)
  case Nil
  show ?case by simp
next
  case (Cons e es)
  from Cons.IH [of "Process e st"] stored_Process [of e st p]
  show ?case by auto
qed

lemma sorted_step:
  fixes a b c h k :: "int list"
  assumes srt: "sorted (a @ k @ c)"
    and a: "a = [] \<or> (\<exists>x. a = [x])"
    and b: "b = [] \<or> (\<exists>x. b = [x])"
    and sub: "set b \<subseteq> set a \<union> set k"
    and hs: "set h \<subseteq> set b \<union> set c"
    and ih: "sorted (b @ c) \<Longrightarrow> sorted (b @ h)"
  shows "sorted (a @ b @ h)"
proof -
  have bc: "sorted (b @ c)"
    using srt b sub by (auto simp: sorted_append)
  have bh: "sorted (b @ h)" using bc by (rule ih)
  have "\<forall>x\<in>set a. \<forall>y\<in>set (b @ h). x \<le> y"
  proof (intro ballI)
    fix x y assume x: "x \<in> set a" and y: "y \<in> set (b @ h)"
    from y sub hs have "y \<in> set a \<or> y \<in> set (k @ c)" by auto
    then show "x \<le> y"
    proof
      assume "y \<in> set a"
      with x a show ?thesis by auto
    next
      assume "y \<in> set (k @ c)"
      with x srt show ?thesis by (auto simp: sorted_append)
    qed
  qed
  moreover have "sorted a" using a by auto
  ultimately show ?thesis using bh by (simp add: sorted_append)
qed

text \<open>
  C3, as the claim states it, fails: an \<open>EventsEvent\<close> that carries a smaller offset for
  a tracked file lowers the stored offset from 10 to 4.
\<close>

theorem stored_offset_can_decrease:
  "stored st0 1 = [10] \<and> offset_history 1 [EventsEvent [FileEvent 1 4]] st0 = [4] \<and>
   \<not> sorted (stored st0 1 @ offset_history 1 [EventsEvent [FileEvent 1 4]] st0)"
  by (simp add: st0_def fs_a_def stored_def set_offset_def)

lemma offset_history_sorted:
  "sorted (stored st p @ concat (map (carried p) evs)) \<Longrightarrow>
   sorted (stored st p @ offset_history p evs st)"
proof (induction evs arbitrary: st)
  case Nil
  then show ?case by simp
next
  case (Cons e es)
  have "sorted (stored st p @ stored (Process e st) p @ offset_history p es (Process e st))"
  proof (rule sorted_step)
    show "sorted (stored st p @ carried p e @ concat (map (carried p) es))"
      using Cons.prems by simp
    show "stored st p = [] \<or> (\<exists>x. stored st p = [x])" by (rule stored_cases)
    show "stored (Process e st) p = [] \<or> (\<exists>x. stored (Process e st) p = [x])"
      by (rule stored_cases)
    show "set (stored (Process e st) p) \<subseteq> set (stored st p) \<union> set (carried p e)"
      by (rule stored_Process)
    show "set (offset_history p es (Process e st))
        \<subseteq> set (stored (Process e st) p) \<union> set (concat (map (carried p) es))"
      by (rule offset_history_subset)
    show "sorted (stored (Process e st) p @ concat (map (carried p) es)) \<Longrightarrow>
        sorted (stored (Process e st) p @ offset_history p es (Process e st))"
      by (rule Cons.IH)
  qed
  then show ?case by simp
qed

lemma stored_set_offset_exact:
  "stored (set_offset e st) p =
     (if stored st p = [] then []
      else if ev_ProspectorInfo e = p then [ev_Offset e] else stored st p)"
  by (auto simp: stored_def set_offset_def split: option.splits)

lemma stored_fold_exact:
  "stored (fold set_offset es st) p =
     (if stored st p = [] then []
      else [last (stored st p @ map ev_Offset (filter (\<lambda>e. ev_ProspectorInfo e = p) es))])"
proof (induction es arbitrary: st)
  case Nil
  show ?case using stored_cases [of st p] by auto
next
  case (Cons e es)
  have "stored (fold set_offset (e # es) st) p = stored (fold set_offset es (set_offset e st)) p"
    by simp
  also have "\<dots> =
     (if stored (set_offset e st) p = [] then []
      else [last (stored (set_offset e st) p @
                  map ev_Offset (filter (\<lambda>e. ev_ProspectorInfo e = p) es))])"
    by (rule Cons.IH)
  also have "\<dots> =
     (if stored st p = [] then []
      else [last (stored st p @
                  map ev_Offset (filter (\<lambda>e. ev_ProspectorInfo e = p) (e # es)))])"
    using stored_cases [of st p] by (auto simp: stored_set_offset_exact)
  finally show ?case .
qed

lemma stored_Process_exact:
  "stored (Process e st) p =
     (case e of
        NewFileEvent q src off ids \<Rightarrow> if q = p then [off] else stored st p
      | DeletedEvent q \<Rightarrow> if q = p then [] else stored st p
      | RenamedEvent q src \<Rightarrow> stored st p
      | EventsEvent es \<Rightarrow>
          if stored st p = [] then [] else [last (stored st p @ carried p e)])"
proof (cases e)
  case (EventsEvent es)
  then show ?thesis by (simp add: stored_fold_exact)
qed (auto simp: stored_def split: option.splits)

lemma stored_process_batch:
  "set (stored (process_batch b st) p) \<subseteq> set (stored st p) \<union> set (concat (map (carried p) b))"
  unfolding process_batch_def
proof (induction b arbitrary: st)
  case Nil
  show ?case by simp
next
  case (Cons e b)
  from Cons.IH [of "Process e st"] stored_Process [of e st p] show ?case by auto
qed

lemma batch_states_subset:
  "set (concat (map (\<lambda>s. stored s p) (batch_states batches st))) \<subseteq>
     set (stored st p) \<union> set (concat (map (carried p) (concat batches)))"
proof (induction batches arbitrary: st)
  case Nil
  show ?case by simp
next
  case (Cons b bs)
  from Cons.IH [of "process_batch b st"] stored_process_batch [of b st p] show ?case by auto
qed

lemma batch_states_sorted:
  "sorted (stored st p @ concat (map (carried p) (concat batches))) \<Longrightarrow>
   sorted (stored st p @ concat (map (\<lambda>s. stored s p) (batch_states batches st)))"
proof (induction batches arbitrary: st)
  case Nil
  then show ?case by simp
next
  case (Cons b bs)
  let ?st = "process_batch b st"
  have "sorted (stored st p @ stored ?st p @ concat (map (\<lambda>s. stored s p) (batch_states bs ?st)))"
  proof (rule sorted_step)
    show "sorted (stored st p @ concat (map (carried p) b) @ concat (map (carried p) (concat bs)))"
      using Cons.prems by simp
    show "stored st p = [] \<or> (\<exists>x. stored st p = [x])" by (rule stored_cases)
    show "stored ?st p = [] \<or> (\<exists>x. stored ?st p = [x])" by (rule stored_cases)
    show "set (stored ?st p) \<subseteq> set (stored st p) \<union> set (concat (map (carried p) b))"
      by (rule stored_process_batch)
    show "set (concat (map (\<lambda>s. stored s p) (batch_states bs ?st))) \<subseteq>
        set (stored ?st p) \<union> set (concat (map (carried p) (concat bs)))"
      by (rule batch_states_subset)
    show "sorted (stored ?st p @ concat (map (carried p) (concat bs))) \<Longrightarrow>
        sorted (stored ?st p @ concat (map (\<lambda>s. stored s p) (batch_states bs ?st)))"
      by (rule Cons.IH)
  qed
  then show ?case by simp
qed

subsection \<open>The persisted document\<close>

lemma fold_json_Some:
  "fold (\<lambda>k doc. case st k of None \<Rightarrow> doc | Some v \<Rightarrow> doc(Source v \<mapsto> v)) ks d s = Some v \<Longrightarrow>
   d s = Some v \<or> (\<exists>k\<in>set ks. st k = Some v \<and> Source v = s)"
proof (induction ks arbitrary: d)
  case Nil
  then show ?case by simp
next
  case (Cons k ks)
  show ?case
  proof (cases "st k")
    case None
    with Cons show ?thesis by auto
  next
    case (Some w)
    with Cons.prems have "fold (\<lambda>k doc. case st k of None \<Rightarrow> doc | Some v \<Rightarrow> doc(Source v \<mapsto> v)) ks (d(Source w \<mapsto> w)) s = Some v"
      by simp
    from Cons.IH [OF this] Some show ?thesis by (auto split: if_splits)
  qed
qed

lemma fold_json_dom:
  "dom (fold (\<lambda>k doc. case st k of None \<Rightarrow> doc | Some v \<Rightarrow> doc(Source v \<mapsto> v)) ks d) =
   dom d \<union> {Source v |k v. k \<in> set ks \<and> st k = Some v}"
proof (induction ks arbitrary: d)
  case Nil
  show ?case by simp
next
  case (Cons k ks)
  show ?case
  proof (cases "st k")
    case None
    then show ?thesis by (auto simp: Cons.IH)
  next
    case (Some w)
    have "dom (fold (\<lambda>k doc. case st k of None \<Rightarrow> doc | Some v \<Rightarrow> doc(Source v \<mapsto> v)) (k # ks) d) =
          dom (fold (\<lambda>k doc. case st k of None \<Rightarrow> doc | Some v \<Rightarrow> doc(Source v \<mapsto> v)) ks
                 (d(Source w \<mapsto> w)))"
      using Some by simp
    also have "\<dots> = dom (d(Source w \<mapsto> w)) \<union> {Source v |k v. k \<in> set ks \<and> st k = Some v}"
      by (rule Cons.IH)
    also have "\<dots> = dom d \<union> {Source v |k' v. k' \<in> set (k # ks) \<and> st k' = Some v}"
    proof -
      have "{Source v |k' v. k' \<in> set (k # ks) \<and> st k' = Some v} =
            insert (Source w) {Source v |k v. k \<in> set ks \<and> st k = Some v}"
        using Some by auto
      then show ?thesis by auto
    qed
    finally show ?thesis .
  qed
qed

lemma state_json_Some:
  "state_json st ks s = Some v \<Longrightarrow> \<exists>k\<in>set ks. st k = Some v \<and> Source v = s"
  unfolding state_json_def using fold_json_Some [of st ks Map.empty s v] by simp

lemma state_json_dom:
  "dom (state_json st ks) = {Source v |k v. k \<in> set ks \<and> st k = Some v}"
  unfolding state_json_def by (simp add: fold_json_dom)

lemma state_json_card:
  assumes ks: "set ks = dom st" and p: "st p = Some a" and q: "st q = Some b"
    and pq: "p \<noteq> q" and src: "Source a = Source b"
  shows "card (dom (state_json st ks)) < card (dom st)"
proof -
  let ?f = "\<lambda>k. Source (the (st k))"
  have fin: "finite (dom st)" using ks [symmetric] by simp
  have img: "dom (state_json st ks) = ?f ` dom st"
    unfolding state_json_dom ks by force
  have "\<not> inj_on ?f (dom st)"
  proof
    assume "inj_on ?f (dom st)"
    moreover have "?f p = ?f q" using p q src by simp
    moreover have "p \<in> dom st" "q \<in> dom st" using p q by auto
    ultimately have "p = q" by (rule inj_onD)
    with pq show False by simp
  qed
  then have "card (?f ` dom st) \<noteq> card (dom st)"
    using fin eq_card_imp_inj_on by blast
  moreover have "card (?f ` dom st) \<le> card (dom st)" using fin by (rule card_image_le)
  ultimately show ?thesis using img by simp
qed


text \<open>
  C9. The document is keyed by the stored source path. When two tracked files carry the
  same path at the time of writing, the document has fewer entries than there are
  tracked files, its entry for that path is the state of one tracked file with that
  path, and (the two states being different) one of the two is in the document under
  no path: its offset is not written. This holds for every order in which the loop
  visits the state.
\<close>

theorem one_entry_per_path:
  assumes ks: "set ks = dom st" and p: "st p = Some a" and q: "st q = Some b"
    and pq: "p \<noteq> q" and src: "Source a = Source b"
  shows "card (dom (state_json st ks)) < card (dom st) \<and>
         (\<exists>k v. st k = Some v \<and> Source v = Source a \<and> state_json st ks (Source a) = Some v) \<and>
         (a \<noteq> b \<longrightarrow> (\<forall>s. state_json st ks s \<noteq> Some a) \<or> (\<forall>s. state_json st ks s \<noteq> Some b))"
proof (intro conjI impI)
  show "card (dom (state_json st ks)) < card (dom st)"
    using assms by (rule state_json_card)
next
  have "Source a \<in> dom (state_json st ks)"
    unfolding state_json_dom using ks p by auto
  then obtain v where v: "state_json st ks (Source a) = Some v" by auto
  from state_json_Some [OF this] v
  show "\<exists>k v. st k = Some v \<and> Source v = Source a \<and> state_json st ks (Source a) = Some v"
    by auto
next
  assume ab: "a \<noteq> b"
  show "(\<forall>s. state_json st ks s \<noteq> Some a) \<or> (\<forall>s. state_json st ks s \<noteq> Some b)"
  proof (rule ccontr)
    assume "\<not> ?thesis"
    then obtain s s' where s: "state_json st ks s = Some a" and s': "state_json st ks s' = Some b"
      by auto
    from state_json_Some [OF s] state_json_Some [OF s'] src have "s = s'" by auto
    with s s' ab show False by simp
  qed
qed

theorem one_entry_per_path_witness:
  "set [1, 2] = dom st_shared \<and> st_shared 1 = Some fs_a \<and> st_shared 2 = Some fs_b \<and>
   Source fs_a = Source fs_b \<and> fs_a \<noteq> fs_b \<and>
   card (dom (state_json st_shared [1, 2])) < card (dom st_shared) \<and>
   ((\<forall>s. state_json st_shared [1, 2] s \<noteq> Some fs_a) \<or>
    (\<forall>s. state_json st_shared [1, 2] s \<noteq> Some fs_b))"
proof -
  have ks: "set [1, 2] = dom st_shared" by (auto simp: st_shared_def)
  have a: "st_shared 1 = Some fs_a" and b: "st_shared 2 = Some fs_b"
    by (simp_all add: st_shared_def)
  have src: "Source fs_a = Source fs_b" by (simp add: fs_a_def fs_b_def)
  have ne: "fs_a \<noteq> fs_b" by (simp add: fs_a_def fs_b_def)
  have pq: "(1::nat) \<noteq> 2" by simp
  from one_entry_per_path [OF ks a b pq src] ks a b src ne show ?thesis by blast
qed

subsection \<open>The stored and the persisted offset\<close>

lemma persisted_sole_path:
  assumes ks: "set ks = dom st" and sole: "sole_path st ks p"
  shows "persisted st ks p = stored st p"
proof (cases "st p")
  case None
  then show ?thesis by (simp add: persisted_def stored_def)
next
  case (Some fs)
  with ks have pk: "p \<in> set ks" by auto
  with Some have "Source fs \<in> dom (state_json st ks)" unfolding state_json_dom by auto
  then obtain v where v: "state_json st ks (Source fs) = Some v" by auto
  from state_json_Some [OF v] obtain k where
    k: "k \<in> set ks" "st k = Some v" "Source v = Source fs"
    by blast
  have "k = p"
  proof (rule ccontr)
    assume "k \<noteq> p"
    with sole k(1) have "map_option Source (st k) \<noteq> map_option Source (st p)"
      by (simp add: sole_path_def)
    with k Some show False by simp
  qed
  with k Some have "v = fs" by simp
  with v Some show ?thesis by (simp add: persisted_def stored_def)
qed

lemma Register_batch_states:
  "snd (Register order batches st) = map (\<lambda>s. state_json s (order s)) (batch_states batches st)"
proof (induction batches arbitrary: st)
  case Nil
  show ?case by simp
next
  case (Cons b bs)
  obtain final docs where r: "Register order bs (process_batch b st) = (final, docs)"
    by (cases "Register order bs (process_batch b st)")
  from Cons.IH [of "process_batch b st"] r show ?case by (simp add: Let_def)
qed

lemma batch_states0:
  "batch_states batches0 st0 =
     [[1 \<mapsto> fs_a\<lparr>Offset := 12\<rparr>],
      [1 \<mapsto> fs_a\<lparr>Source := ''/var/log/a.log.1'', Offset := 20\<rparr>]]"
  by (simp add: batches0_def st0_def process_batch_def set_offset_def)

text \<open>
  Where two tracked files carry the same path, the offset written under that path is
  the one of whichever file the loop visits last: here it falls from 25 to 11 while the
  offsets carried for file 1 only grow.
\<close>

lemma shared_path_persisted_offset_falls:
  "sorted (stored st_shared 1 @
     concat (map (carried 1) (concat [[], [EventsEvent [FileEvent 1 11]]]))) \<and>
   map (\<lambda>s. persisted s (order_shared s) 1)
     (batch_states [[], [EventsEvent [FileEvent 1 11]]] st_shared) = [[25], [11]]"
  by (simp add: st_shared_def fs_a_def fs_b_def stored_def persisted_def state_json_def
      order_shared_def process_batch_def set_offset_def)

text \<open>
  C3, amended. For a fixed ProspectorInfo the registrar stores the offsets it is given
  and compares nothing: after a \<open>NewFileEvent\<close> for it the stored offset is the
  event's, after an \<open>EventsEvent\<close> it is the last offset the event carries for it (the
  stored one if it carries none, and nothing if the file is not tracked), a
  \<open>DeletedEvent\<close> for it removes it, and no other event touches it. So if the offsets
  that the events carry for it, taken in order after the stored one, do not decrease,
  the offsets stored after each event do not decrease either. The documents that
  \<open>Register\<close> writes are made from the states after each batch; in every document in
  which no other tracked file has the file's path, the offset written under that path
  is the stored one, so under the same condition on the events the persisted offsets
  do not decrease.
\<close>

theorem stored_offset_follows_events:
  "stored (Process e st) p =
     (case e of
        NewFileEvent q src off ids \<Rightarrow> if q = p then [off] else stored st p
      | DeletedEvent q \<Rightarrow> if q = p then [] else stored st p
      | RenamedEvent q src \<Rightarrow> stored st p
      | EventsEvent es \<Rightarrow>
          if stored st p = [] then [] else [last (stored st p @ carried p e)]) \<and>
   (sorted (stored st p @ concat (map (carried p) evs)) \<longrightarrow>
      sorted (stored st p @ offset_history p evs st)) \<and>
   snd (Register order batches st) =
     map (\<lambda>s. state_json s (order s)) (batch_states batches st) \<and>
   (sorted (stored st p @ concat (map (carried p) (concat batches))) \<and>
    (\<forall>s\<in>set (batch_states batches st). set (order s) = dom s \<and> sole_path s (order s) p) \<longrightarrow>
      map (\<lambda>s. persisted s (order s) p) (batch_states batches st) =
        map (\<lambda>s. stored s p) (batch_states batches st) \<and>
      sorted (stored st p @
        concat (map (\<lambda>s. persisted s (order s) p) (batch_states batches st))))"
proof -
  have a: "stored (Process e st) p =
     (case e of
        NewFileEvent q src off ids \<Rightarrow> if q = p then [off] else stored st p
      | DeletedEvent q \<Rightarrow> if q = p then [] else stored st p
      | RenamedEvent q src \<Rightarrow> stored st p
      | EventsEvent es \<Rightarrow>
          if stored st p = [] then [] else [last (stored st p @ carried p e)])"
    by (rule stored_Process_exact)
  have c: "snd (Register order batches st) =
     map (\<lambda>s. state_json s (order s)) (batch_states batches st)"
    by (rule Register_batch_states)
  have d: "map (\<lambda>s. persisted s (order s) p) (batch_states batches st) =
        map (\<lambda>s. stored s p) (batch_states batches st) \<and>
      sorted (stored st p @
        concat (map (\<lambda>s. persisted s (order s) p) (batch_states batches st)))"
    if srt: "sorted (stored st p @ concat (map (carried p) (concat batches)))"
      and u: "\<forall>s\<in>set (batch_states batches st). set (order s) = dom s \<and> sole_path s (order s) p"
  proof -
    have eq: "map (\<lambda>s. persisted s (order s) p) (batch_states batches st) =
        map (\<lambda>s. stored s p) (batch_states batches st)"
      using u by (intro map_cong refl) (simp add: persisted_sole_path)
    have "sorted (stored st p @
        concat (map (\<lambda>s. persisted s (order s) p) (batch_states batches st)))"
      unfolding eq using srt by (rule batch_states_sorted)
    with eq show ?thesis by (rule conjI)
  qed
  have b: "sorted (stored st p @ concat (map (carried p) evs)) \<longrightarrow>
      sorted (stored st p @ offset_history p evs st)"
    using offset_history_sorted by blast
  from a b c d show ?thesis by blast
qed

theorem stored_offset_follows_events_witness:
  "sorted (stored st0 1 @ concat (map (carried 1) (concat batches0))) \<and>
   list_all (\<lambda>s. set [1] = dom s \<and> sole_path s [1] 1) (batch_states batches0 st0) \<and>
   stored (Process (EventsEvent [FileEvent 1 12, FileEvent 2 3]) st0) 1 = [12] \<and>
   sorted (stored st0 1 @ offset_history 1 (concat batches0) st0) \<and>
   map (\<lambda>s. persisted s [1] 1) (batch_states batches0 st0) = [[12], [20]] \<and>
   sorted (stored st0 1 @ concat (map (\<lambda>s. persisted s [1] 1) (batch_states batches0 st0)))"
proof -
  have h: "sorted (stored st0 1 @ concat (map (carried 1) (concat batches0)))"
    by (simp add: st0_def fs_a_def stored_def batches0_def)
  have u: "\<forall>s\<in>set (batch_states batches0 st0). set [1] = dom s \<and> sole_path s [1] 1"
    by (simp add: batch_states0 sole_path_def)
  have s0: "stored st0 1 = [10]" by (simp add: st0_def fs_a_def stored_def)
  have st: "map (\<lambda>s. stored s 1) (batch_states batches0 st0) = [[12], [20]]"
    by (simp add: batch_states0 stored_def)
  note T = stored_offset_follows_events [where st = st0 and p = 1 and evs = "concat batches0" and batches = batches0
      and order = "\<lambda>s. [1]" and e = "EventsEvent [FileEvent 1 12, FileEvent 2 3]"]
  from T s0 have a: "stored (Process (EventsEvent [FileEvent 1 12, FileEvent 2 3]) st0) 1 = [12]"
    by simp
  from T h have b: "sorted (stored st0 1 @ offset_history 1 (concat batches0) st0)" by blast
  from T h u have c: "map (\<lambda>s. persisted s [1] 1) (batch_states batches0 st0) =
        map (\<lambda>s. stored s 1) (batch_states batches0 st0)"
    and d: "sorted (stored st0 1 @
        concat (map (\<lambda>s. persisted s [1] 1) (batch_states batches0 st0)))"
    by blast+
  from u have u': "list_all (\<lambda>s. set [1] = dom s \<and> sole_path s [1] 1) (batch_states batches0 st0)"
    by (simp add: list_all_iff)
  from c st have c': "map (\<lambda>s. persisted s [1] 1) (batch_states batches0 st0) = [[12], [20]]"
    by (rule trans)
  from h u' a b c' d show ?thesis by blast
qed

subsection \<open>Loading the previous state\<close>

lemma load_entries_next: "snd (snd (load_entries d resume st n)) = n + length d"
proof (induction d arbitrary: resume st n)
  case Nil
  show ?case by simp
next
  case (Cons x d)
  obtain f fs where x: "x = (f, fs)" by (cases x)
  show ?case unfolding x by (simp add: Cons.IH)
qed

lemma load_entries_state:
  "fst (snd (load_entries d resume st n)) h =
     (if n \<le> h \<and> h < n + length d then Some (snd (d ! (h - n))) else st h)"
proof (induction d arbitrary: resume st n)
  case Nil
  show ?case by auto
next
  case (Cons x d)
  obtain f fs where x: "x = (f, fs)" by (cases x)
  have "fst (snd (load_entries (x # d) resume st n)) h =
        fst (snd (load_entries d (resume(f \<mapsto> n)) (st(n \<mapsto> fs)) (Suc n))) h"
    unfolding x by simp
  also have "\<dots> = (if Suc n \<le> h \<and> h < Suc n + length d
                    then Some (snd (d ! (h - Suc n))) else (st(n \<mapsto> fs)) h)"
    by (rule Cons.IH)
  also have "\<dots> = (if n \<le> h \<and> h < n + length (x # d)
                    then Some (snd ((x # d) ! (h - n))) else st h)"
    unfolding x by (auto simp: nth_Cons' Suc_diff_le)
  finally show ?case .
qed

lemma load_entries_resume_other:
  "file \<notin> fst ` set d \<Longrightarrow> fst (load_entries d resume st n) file = resume file"
proof (induction d arbitrary: resume st n)
  case Nil
  show ?case by simp
next
  case (Cons x d)
  obtain f fs where x: "x = (f, fs)" by (cases x)
  from Cons.prems show ?case unfolding x by (simp add: Cons.IH)
qed

lemma load_entries_resume:
  "distinct (map fst d) \<Longrightarrow> i < length d \<Longrightarrow>
   fst (load_entries d resume st n) (fst (d ! i)) = Some (n + i)"
proof (induction d arbitrary: resume st n i)
  case Nil
  then show ?case by simp
next
  case (Cons x d)
  obtain f fs where x: "x = (f, fs)" by (cases x)
  show ?case
  proof (cases i)
    case 0
    with Cons.prems show ?thesis unfolding x by (simp add: load_entries_resume_other)
  next
    case (Suc j)
    have "fst (load_entries (x # d) resume st n) (fst ((x # d) ! i)) =
          fst (load_entries d (resume(f \<mapsto> n)) (st(n \<mapsto> fs)) (Suc n)) (fst (d ! j))"
      unfolding x Suc by simp
    also have "\<dots> = Some (Suc n + j)"
    proof (rule Cons.IH)
      show "distinct (map fst d)" using Cons.prems by simp
      show "j < length d" using Cons.prems Suc by simp
    qed
    also have "\<dots> = Some (n + i)" using Suc by simp
    finally show ?thesis .
  qed
qed

lemma load_entries_dom:
  "dom (fst (load_entries d resume st n)) = dom resume \<union> fst ` set d"
proof (induction d arbitrary: resume st n)
  case Nil
  show ?case by simp
next
  case (Cons x d)
  obtain f fs where x: "x = (f, fs)" by (cases x)
  show ?case unfolding x by (auto simp: Cons.IH)
qed

lemma LoadPrevious_opened:
  "opened (LoadPrevious files decode r n) =
     (if files (persistdir r @ PathSeparator @ ''.log-courier'') = None
      then [persistdir r @ PathSeparator @ ''.log-courier'',
            persistdir r @ PathSeparator @ ''.log-courier.new'']
      else [persistdir r @ PathSeparator @ ''.log-courier''])"
  by (auto simp: LoadPrevious_def Let_def split: option.splits prod.splits)

lemma LoadPrevious_loaded:
  assumes "files (persistdir r @ PathSeparator @ ''.log-courier'') = Some c \<or>
           (files (persistdir r @ PathSeparator @ ''.log-courier'') = None \<and>
            files (persistdir r @ PathSeparator @ ''.log-courier.new'') = Some c)"
  shows "LoadPrevious files decode r n =
         \<lparr>resume_map = Some (fst (load_entries (decode c) Map.empty Map.empty n)),
          registrar = r\<lparr>state := fst (snd (load_entries (decode c) Map.empty Map.empty n))\<rparr>,
          next_handle = snd (snd (load_entries (decode c) Map.empty Map.empty n)),
          opened = opened (LoadPrevious files decode r n)\<rparr>"
  using assms
  by (auto simp: LoadPrevious_def Let_def split: option.splits prod.splits)

text \<open>
  C6. \<open>LoadPrevious\<close> opens \<open><persist_dir>/.log-courier\<close> first, and
  \<open><persist_dir>/.log-courier.new\<close> if and only if the first cannot be opened. If neither
  opens it returns \<open>nil\<close> and leaves the registrar as it was. If one opens, the decoded
  entries become the state (one new ProspectorInfo for each, and nothing else), and the
  resume map returned is keyed by the paths of the document, each path leading to the
  ProspectorInfo under which its state was stored.
\<close>

theorem LoadPrevious_falls_back_to_new:
  fixes files :: filesystem and r :: Registrar
  assumes f1: "f1 = persistdir r @ PathSeparator @ ''.log-courier''"
    and f2: "f2 = persistdir r @ PathSeparator @ ''.log-courier.new''"
    and res: "res = LoadPrevious files decode r n"
  shows "opened res = (if files f1 = None then [f1, f2] else [f1]) \<and>
         (files f1 = None \<and> files f2 = None \<longrightarrow> resume_map res = None \<and> registrar res = r) \<and>
         (\<forall>c. files f1 = Some c \<or> (files f1 = None \<and> files f2 = Some c) \<longrightarrow>
            (\<exists>resume. resume_map res = Some resume \<and>
               dom resume = fst ` set (decode c) \<and>
               (distinct (map fst (decode c)) \<longrightarrow>
                  (\<forall>i<length (decode c). resume (fst (decode c ! i)) = Some (n + i))) \<and>
               (\<forall>i<length (decode c). state (registrar res) (n + i) = Some (snd (decode c ! i))) \<and>
               dom (state (registrar res)) = {n..<n + length (decode c)}))"
proof -
  have a: "opened res = (if files f1 = None then [f1, f2] else [f1])"
    unfolding res f1 f2 by (rule LoadPrevious_opened)
  have b: "files f1 = None \<and> files f2 = None \<longrightarrow> resume_map res = None \<and> registrar res = r"
    unfolding res f1 f2 by (simp add: LoadPrevious_def Let_def)
  have c: "\<exists>resume. resume_map res = Some resume \<and>
               dom resume = fst ` set (decode c) \<and>
               (distinct (map fst (decode c)) \<longrightarrow>
                  (\<forall>i<length (decode c). resume (fst (decode c ! i)) = Some (n + i))) \<and>
               (\<forall>i<length (decode c). state (registrar res) (n + i) = Some (snd (decode c ! i))) \<and>
               dom (state (registrar res)) = {n..<n + length (decode c)}"
    if c: "files f1 = Some c \<or> (files f1 = None \<and> files f2 = Some c)" for c
  proof -
    let ?L = "load_entries (decode c) Map.empty Map.empty n"
    from c have eq: "res = \<lparr>resume_map = Some (fst ?L), registrar = r\<lparr>state := fst (snd ?L)\<rparr>,
          next_handle = snd (snd ?L), opened = opened (LoadPrevious files decode r n)\<rparr>"
      unfolding res f1 f2 by (rule LoadPrevious_loaded)
    have "resume_map res = Some (fst ?L)" by (subst eq) simp
    moreover have "dom (fst ?L) = fst ` set (decode c)" by (simp add: load_entries_dom)
    moreover have "distinct (map fst (decode c)) \<longrightarrow>
        (\<forall>i<length (decode c). fst ?L (fst (decode c ! i)) = Some (n + i))"
      by (simp add: load_entries_resume)
    moreover have st: "state (registrar res) = fst (snd ?L)" by (subst eq) simp
    have "\<forall>i<length (decode c). state (registrar res) (n + i) = Some (snd (decode c ! i))"
      unfolding st by (simp add: load_entries_state)
    moreover have "dom (state (registrar res)) = {n..<n + length (decode c)}"
      unfolding st by (auto simp: load_entries_state dom_def split: if_splits)
    ultimately show ?thesis by blast
  qed
  from a b c show ?thesis by blast
qed

theorem LoadPrevious_falls_back_to_new_witness:
  "files_new_only ''/var/lib/lc/.log-courier'' = None \<and>
   files_new_only ''/var/lib/lc/.log-courier.new'' = Some ''saved'' \<and>
   distinct (map fst (decode0 ''saved'')) \<and>
   opened (LoadPrevious files_new_only decode0 registrar0 5) =
     [''/var/lib/lc/.log-courier'', ''/var/lib/lc/.log-courier.new''] \<and>
   (\<exists>resume. resume_map (LoadPrevious files_new_only decode0 registrar0 5) = Some resume \<and>
      dom resume = {''/var/log/a.log'', ''/var/log/b.log''} \<and>
      resume ''/var/log/a.log'' = Some 5 \<and> resume ''/var/log/b.log'' = Some 6) \<and>
   state (registrar (LoadPrevious files_new_only decode0 registrar0 5)) 5 = Some fs_a \<and>
   state (registrar (LoadPrevious files_new_only decode0 registrar0 5)) 6 = Some fs_b"
proof -
  have f1: "''/var/lib/lc/.log-courier'' = persistdir registrar0 @ PathSeparator @ ''.log-courier''"
    by (simp add: registrar0_def PathSeparator_def)
  have f2: "''/var/lib/lc/.log-courier.new'' =
      persistdir registrar0 @ PathSeparator @ ''.log-courier.new''"
    by (simp add: registrar0_def PathSeparator_def)
  have n1: "files_new_only ''/var/lib/lc/.log-courier'' = None"
    by (simp add: files_new_only_def)
  have n2: "files_new_only ''/var/lib/lc/.log-courier.new'' = Some ''saved''"
    by (simp add: files_new_only_def)
  have d: "decode0 ''saved'' = [(''/var/log/a.log'', fs_a), (''/var/log/b.log'', fs_b)]"
    by (simp add: decode0_def)
  have dist: "distinct (map fst (decode0 ''saved''))" by (simp add: d)
  note T = LoadPrevious_falls_back_to_new [OF f1 f2 refl, of files_new_only decode0 5]
  from T have o: "opened (LoadPrevious files_new_only decode0 registrar0 5) =
     [''/var/lib/lc/.log-courier'', ''/var/lib/lc/.log-courier.new'']"
    using n1 by simp
  from T n1 n2 obtain resume where
    r: "resume_map (LoadPrevious files_new_only decode0 registrar0 5) = Some resume"
    and dm: "dom resume = fst ` set (decode0 ''saved'')"
    and ri: "distinct (map fst (decode0 ''saved'')) \<longrightarrow>
          (\<forall>i<length (decode0 ''saved''). resume (fst (decode0 ''saved'' ! i)) = Some (5 + i))"
    and si: "\<forall>i<length (decode0 ''saved'').
          state (registrar (LoadPrevious files_new_only decode0 registrar0 5)) (5 + i) =
          Some (snd (decode0 ''saved'' ! i))"
    by blast
  from ri dist have ri': "\<And>i. i < length (decode0 ''saved'') \<Longrightarrow>
      resume (fst (decode0 ''saved'' ! i)) = Some (5 + i)"
    by blast
  have "resume (fst (decode0 ''saved'' ! 0)) = Some (5 + 0)" by (rule ri') (simp add: d)
  then have ra: "resume ''/var/log/a.log'' = Some 5" by (simp add: d)
  have "resume (fst (decode0 ''saved'' ! 1)) = Some (5 + 1)" by (rule ri') (simp add: d)
  then have rb: "resume ''/var/log/b.log'' = Some 6" by (simp add: d)
  from si have si': "\<And>i. i < length (decode0 ''saved'') \<Longrightarrow>
      state (registrar (LoadPrevious files_new_only decode0 registrar0 5)) (5 + i) =
          Some (snd (decode0 ''saved'' ! i))"
    by blast
  have "state (registrar (LoadPrevious files_new_only decode0 registrar0 5)) (5 + 0) =
          Some (snd (decode0 ''saved'' ! 0))"
    by (rule si') (simp add: d)
  then have sa: "state (registrar (LoadPrevious files_new_only decode0 registrar0 5)) 5 = Some fs_a"
    by (simp add: d)
  have "state (registrar (LoadPrevious files_new_only decode0 registrar0 5)) (5 + 1) =
          Some (snd (decode0 ''saved'' ! 1))"
    by (rule si') (simp add: d)
  then have sb: "state (registrar (LoadPrevious files_new_only decode0 registrar0 5)) 6 = Some fs_b"
    by (simp add: d)
  from dm have dm': "dom resume = {''/var/log/a.log'', ''/var/log/b.log''}" by (simp add: d)
  from n1 n2 dist o r dm' ra rb sa sb show ?thesis by blast
qed

section \<open>The agent: theorems\<close>

subsection \<open>A reload that fails\<close>

text \<open>
  Whenever the load fails, \<open>reloadConfig\<close> returns its error and sends nothing to the
  pipeline, but \<open>lc.config\<close> already points to the configuration made for this load.
\<close>

lemma reloadConfig_failure:
  "fst (Load env (configFile lc) (NewConfig env)) = Some e \<Longrightarrow>
   fst (reloadConfig env lc) = Some e \<and> config (snd (reloadConfig env lc)) = next_config lc \<and>
   sent_config (snd (reloadConfig env lc)) = sent_config lc"
  by (auto simp: reloadConfig_def loadConfig_def Let_def split: prod.splits option.splits)

text \<open>
  C2. The claim holds for the error returned and fails for the configuration: after a
  reload whose load fails, \<open>lc.config\<close> is the new object at address 2, with the contents
  the failed load left in it, and no longer the object at address 1 that was in effect
  before. Nothing was sent to the pipeline.
\<close>

theorem failed_reload_replaces_config:
  "fst (reloadConfig env_load_fails lc_running) = Some ''syntax error'' \<and>
   config lc_running = 1 \<and>
   config (snd (reloadConfig env_load_fails lc_running)) = 2 \<and>
   configs (snd (reloadConfig env_load_fails lc_running)) 2 = cfg_new \<and>
   sent_config (snd (reloadConfig env_load_fails lc_running)) = []"
  by (simp add: reloadConfig_def loadConfig_def Let_def env_load_fails_def env_ok_def
      lc_running_def lc_new_def)

subsection \<open>Exit statuses\<close>





























section \<open>Transport: theorems\<close>

lemma connect_loop_iff: "connect_loop attempts \<longleftrightarrow> Connected \<in> set attempts"
  by (induction attempts rule: connect_loop.induct) auto

lemma Connect_example:
  "Connect [DnsFailure, Connected] transport0 = Returns transport_connected"
  by (simp add: Connect_def transport0_def transport_connected_def)

subsection \<open>Disconnect\<close>

text \<open>
  C4, as the claim states it, fails: the first \<open>Disconnect\<close> of a connected transport
  returns, the second panics.
\<close>

theorem second_Disconnect_panics:
  "Disconnect True transport_connected = Returns transport_disconnected \<and>
   Disconnect True transport_disconnected = Panic ''close of closed channel''"
  by (simp add: Disconnect_def transport_connected_def transport_disconnected_def transport0_def)

text \<open>
  C4, amended. On a connected transport (its shutdown channel is open) whose two
  goroutines see the shutdown, \<open>Disconnect\<close> returns with the shutdown channel closed,
  both goroutines joined, the socket closed and the write buffer empty. It is not
  idempotent: a second \<open>Disconnect\<close> with no \<open>Connect\<close> in between panics on the
  channel that is already closed.
\<close>

theorem Disconnect_once:
  assumes "shutdown t = Chan buf False"
  shows "Disconnect True t =
           Returns (t\<lparr>shutdown := Chan buf True, wait := 0, socket := SocketClosed,
                      write_buffer := []\<rparr>) \<and>
         Disconnect joined (t\<lparr>shutdown := Chan buf True, wait := 0, socket := SocketClosed,
                      write_buffer := []\<rparr>) = Panic ''close of closed channel''"
  using assms by (simp add: Disconnect_def)

theorem Disconnect_once_witness:
  "shutdown (Write [74, 68] transport_connected) = Chan [] False \<and>
   Disconnect True (Write [74, 68] transport_connected) = Returns transport_disconnected \<and>
   Disconnect False transport_disconnected = Panic ''close of closed channel''"
proof -
  have c: "shutdown (Write [74, 68] transport_connected) = Chan [] False"
    by (simp add: Write_def transport_connected_def)
  have e: "(Write [74, 68] transport_connected)\<lparr>shutdown := Chan [] True, wait := 0,
             socket := SocketClosed, write_buffer := []\<rparr> = transport_disconnected"
    by (simp add: Write_def transport_disconnected_def transport_connected_def transport0_def)
  from Disconnect_once [OF c, of False] c show ?thesis unfolding e by simp
qed

subsection \<open>Connect\<close>

text \<open>
  C10. A \<open>Connect\<close> returns as soon as one attempt connects (with a server
  configured), and on return \<open>can_send\<close> holds exactly one signal, \<open>send_chan\<close> and the
  write buffer are empty: the first \<open>Write\<close> and \<open>Flush\<close> on the new connection go
  through without blocking, whatever the payload.
\<close>

theorem Connect_raises_can_send:
  "(Servers t \<noteq> [] \<and> Connected \<in> set attempts \<longrightarrow> (\<exists>t'. Connect attempts t = Returns t')) \<and>
   (\<forall>t'. Connect attempts t = Returns t' \<longrightarrow>
      can_send t' = Chan [1] False \<and> send_chan t' = Chan [] False \<and> write_buffer t' = [] \<and>
      (\<forall>p. Flush (Write p t') = Returns (t'\<lparr>send_chan := Chan [p] False\<rparr>)))"
  by (auto simp: Connect_def Flush_def Write_def connect_loop_iff split: if_splits)

theorem Connect_raises_can_send_witness:
  "Servers transport0 \<noteq> [] \<and> Connected \<in> set [DnsFailure, Connected] \<and>
   Connect [DnsFailure, Connected] transport0 = Returns transport_connected \<and>
   can_send transport_connected = Chan [1] False \<and>
   Flush (Write [74, 68, 65, 84] transport_connected) =
     Returns (transport_connected\<lparr>send_chan := Chan [[74, 68, 65, 84]] False\<rparr>)"
proof -
  have s: "Servers transport0 \<noteq> []" by (simp add: transport0_def)
  have m: "Connected \<in> set [DnsFailure, Connected]" by simp
  have c: "Connect [DnsFailure, Connected] transport0 = Returns transport_connected"
    by (rule Connect_example)
  from Connect_raises_can_send [of transport0 "[DnsFailure, Connected]"] s m c
  show ?thesis by simp
qed

subsection \<open>Writes\<close>

lemma wrap_Write_retried:
  "snd (wrap_Write (retried ns @ ws) b len) = snd (wrap_Write ws b (len + sum_list ns))"
proof (induction ns arbitrary: len)
  case Nil
  show ?case by (simp add: retried_def)
next
  case (Cons n ns)
  have "snd (wrap_Write (retried (n # ns) @ ws) b len) =
        snd (wrap_Write (retried ns @ ws) b (len + n))"
    by (simp add: retried_def split: prod.splits)
  also have "\<dots> = snd (wrap_Write ws b (len + n + sum_list ns))" by (rule Cons.IH)
  finally show ?case by (simp add: add.assoc)
qed

lemma wrap_Write_armed:
  "map fst (fst (wrap_Write ws b len)) = replicate (length (fst (wrap_Write ws b len))) 5"
proof (induction ws b len rule: wrap_Write.induct)
qed (auto simp: socket_interval_seconds_def split: prod.splits)

text \<open>
  C5, as the claim states it, fails: a write that times out with no byte written is
  tried again and, when the next attempt succeeds, the sender raises \<open>can_send\<close> and
  goes on; the connection is not ended.
\<close>

theorem timed_out_write_is_retried:
  "wrap_Write [TimedOut 0 False, Wrote 3] msg1 0 = ([(5, msg1), (5, msg1)], Some (3, None)) \<and>
   sender [SendMsg msg1 [TimedOut 0 False, Wrote 3]] = ([SignalCanSend], Running)"
  by (simp add: msg1_def socket_interval_seconds_def)

text \<open>
  C5, amended. Every attempt of a write arms a deadline of 5 seconds. A timeout, with
  or without progress, is retried as long as shutdown has not been signalled: after any
  number of such timeouts the write has not returned and the sender has delivered
  nothing. What ends the write is the first attempt of another kind: a success raises
  \<open>can_send\<close>; a timeout with shutdown signalled makes the sender exit and surface
  no error; any other error is sent once on the receive channel, with \<open>can_recv\<close>
  raised, and the sender goes on.
\<close>

theorem write_errors:
  "snd (wrap_Write (retried ns) b len) = None \<and>
   sender (SendMsg msg (retried ns) # evs) = ([], Running) \<and>
   sender (SendMsg msg (retried ns @ Wrote n # ws) # evs) =
     (SignalCanSend # fst (sender evs), snd (sender evs)) \<and>
   sender (SendMsg msg (retried ns @ TimedOut n True # ws) # evs) = ([WaitDone], Exited) \<and>
   sender (SendMsg msg (retried ns @ Failed n m # ws) # evs) =
     (Deliver (Error (SocketError m)) # SignalCanRecv # fst (sender evs), snd (sender evs)) \<and>
   map fst (fst (wrap_Write ws b len)) = replicate (length (fst (wrap_Write ws b len))) 5"
proof -
  have a: "snd (wrap_Write (retried ns) b len) = None" for b len
    using wrap_Write_retried [of ns "[]" b len] by simp
  have b: "sender (SendMsg msg (retried ns) # evs) = ([], Running)"
    by (simp add: a)
  have c: "sender (SendMsg msg (retried ns @ Wrote n # ws) # evs) =
     (SignalCanSend # fst (sender evs), snd (sender evs))"
    by (simp add: wrap_Write_retried split: prod.splits)
  have d: "sender (SendMsg msg (retried ns @ TimedOut n True # ws) # evs) = ([WaitDone], Exited)"
    by (simp add: wrap_Write_retried)
  have e: "sender (SendMsg msg (retried ns @ Failed n m # ws) # evs) =
     (Deliver (Error (SocketError m)) # SignalCanRecv # fst (sender evs), snd (sender evs))"
    by (simp add: wrap_Write_retried split: prod.splits)
  from a b c d e wrap_Write_armed show ?thesis by blast
qed

subsection \<open>A frame that is too large\<close>

lemma hdr1_length: "BigEndian_Uint32 (drop 4 hdr1) = 1048577"
  by (simp add: BigEndian_Uint32_def hdr1_def)

lemma oversized_header_read:
  "receiverRead oversized_frame (replicate 8 0) 0 = (Success, hdr1, oversized_rest)"
  by (simp add: hdr1_def oversized_frame_def)

lemma oversized_total: "unat (8 + (1048577 :: 32 word)) = 1048585"
  by simp

lemma oversized_payload_read:
  "receiverRead oversized_rest (replicate 1048577 0) 0 =
     (Success, replicate 1048577 1, [ShutdownClosed])"
  by (simp add: Let_def oversized_rest_def)

lemma receiver_shutdown: "receiver [ShutdownClosed] hdr1 = ([WaitDone], Exited)"
  by (subst receiver.simps) (simp add: hdr1_def)

text \<open>
  C1. The claim fails on the code: for a frame whose length field is 1048577 the
  receiver sends the error and then goes on as for any frame. It reads the 1048577
  bytes of payload, delivers the frame as a message and waits for the next header;
  only the shutdown ends it.
\<close>

theorem oversized_frame_is_read_and_delivered:
  "receiver oversized_frame (replicate 8 0) =
     ([Deliver (Error (MessageTooLarge 1048577)),
       Deliver (Message (hdr1 @ replicate 1048577 1)), SignalCanRecv, WaitDone],
      Exited)"
  by (subst receiver.simps)
    (simp add: oversized_header_read hdr1_length oversized_total oversized_payload_read
      receiver_shutdown)

end
